theory Spec2Isabelle
  imports Main "HOL-Library.Word"
begin

unbundle bit_operations_syntax

section \<open>The generator of LFSR.py\<close>

text \<open>
  Python integers are unbounded, so the register is an \<open>int\<close>: \<open>&\<close>, \<open>^\<close> and unary
  minus are the two's complement operations \<open>AND\<close>, \<open>XOR\<close> and \<open>-\<close> of HOL on \<open>int\<close>,
  and \<open>>>\<close> is the arithmetic shift \<open>drop_bit\<close> (floor division by a power of two).
  The only operation of the function that can raise on integers is \<open>>>\<close>, which raises
  \<open>ValueError\<close> on a negative shift count.
\<close>

datatype error = ValueError

definition py_rshift :: "int \<Rightarrow> int \<Rightarrow> error + int" where
  "py_rshift a n = (if n < 0 then Inl ValueError else Inr (drop_bit (nat n) a))"

text \<open>The local variables \<open>state\<close> and \<open>output\<close> that the loop updates (\<open>output\<close> is reserved in Isabelle: \<open>output_list\<close>).\<close>

record locals =
  state :: int
  output_list :: "int list"

text \<open>The feedback term \<open>-(state & 1) & taps\<close> of line 8.\<close>

definition feedback :: "int \<Rightarrow> int \<Rightarrow> int" where
  "feedback st taps = - (st AND 1) AND taps"

text \<open>
  The loop body, lines 8 and 9: the new state is assigned first, and the bit appended
  to \<open>output\<close> is read from the new state.
\<close>

definition lfsr_step :: "int \<Rightarrow> locals \<Rightarrow> error + locals" where
  "lfsr_step taps l =
     (case py_rshift (state l) 1 of
        Inl e \<Rightarrow> Inl e
      | Inr shifted \<Rightarrow>
          (let l1 = l\<lparr>state := shifted XOR feedback (state l) taps\<rparr>
           in Inr (l1\<lparr>output_list := output_list l1 @ [state l1 AND 1]\<rparr>)))"

text \<open>\<open>for _ in range(cycles)\<close>: the body run a given number of times, stopping at an error.\<close>

fun lfsr_loop :: "nat \<Rightarrow> int \<Rightarrow> locals \<Rightarrow> error + locals" where
  "lfsr_loop 0 taps l = Inr l"
| "lfsr_loop (Suc n) taps l =
     (case lfsr_step taps l of
        Inl e \<Rightarrow> Inl e
      | Inr l' \<Rightarrow> lfsr_loop n taps l')"

text \<open>
  The function itself. \<open>range(cycles)\<close> has \<open>cycles\<close> elements, and none when
  \<open>cycles\<close> is negative: \<open>nat cycles\<close> iterations.
\<close>

definition lfsr_32bit :: "int \<Rightarrow> int \<Rightarrow> int \<Rightarrow> error + int list" where
  "lfsr_32bit seed taps cycles =
     (case lfsr_loop (nat cycles) taps \<lparr>state = seed, output_list = []\<rparr> of
        Inl e \<Rightarrow> Inl e
      | Inr l \<Rightarrow> Inr (output_list l))"

text \<open>The default arguments of the signature.\<close>

definition default_seed :: int where "default_seed = 1"
definition default_taps :: int where "default_taps = 0x80200003"
definition default_cycles :: int where "default_cycles = 100"

text \<open>The call of line 12, \<open>seq = lfsr_32bit()\<close>, with every argument at its default.\<close>

definition seq :: "error + int list" where
  "seq = lfsr_32bit default_seed default_taps default_cycles"

subsection \<open>The transition on the register alone\<close>

text \<open>The value line 8 assigns to \<open>state\<close>, as a function of the old value.\<close>

definition next_state :: "int \<Rightarrow> int \<Rightarrow> int" where
  "next_state taps st = drop_bit 1 st XOR feedback st taps"

text \<open>The bits the first \<open>n\<close> iterations append when the register starts at \<open>st\<close>.\<close>

definition emitted :: "int \<Rightarrow> int \<Rightarrow> nat \<Rightarrow> int list" where
  "emitted taps st n = map (\<lambda>i. (next_state taps ^^ Suc i) st AND 1) [0..<n]"

section \<open>Reference definitions\<close>

text \<open>
  The register machine the specification describes, on 32-bit words: \<open>drop_bit\<close> on a
  word is the logical, zero-filling right shift, and the feedback is chosen by an
  explicit branch. \<open>ref_state taps seed i\<close> is the register after \<open>i\<close> steps, and the
  \<open>i\<close>-th output bit is the lowest bit of the register after step \<open>i + 1\<close>.
\<close>

definition ref_step :: "32 word \<Rightarrow> 32 word \<Rightarrow> 32 word" where
  "ref_step taps s = drop_bit 1 s XOR (if s AND 1 = 1 then taps else 0)"

definition ref_state :: "32 word \<Rightarrow> 32 word \<Rightarrow> nat \<Rightarrow> 32 word" where
  "ref_state taps seed i = (ref_step taps ^^ i) seed"

definition ref_output :: "32 word \<Rightarrow> 32 word \<Rightarrow> nat \<Rightarrow> 32 word list" where
  "ref_output taps seed n = map (\<lambda>i. ref_state taps seed (Suc i) AND 1) [0..<n]"

text \<open>The feedback as a conditional select: \<open>lsb ? taps : 0\<close>.\<close>

definition feedback_ref :: "int \<Rightarrow> int \<Rightarrow> int" where
  "feedback_ref st taps = (let lsb = st AND 1 in if lsb = 1 then taps else 0)"

text \<open>
  The lowest bits of a non-negative register that is shifted right again and again
  with nothing fed back: halving a non-negative integer is its logical right shift.
\<close>

fun drain :: "int \<Rightarrow> nat \<Rightarrow> int list" where
  "drain s 0 = []"
| "drain s (Suc n) = (let s' = s div 2 in (s' mod 2) # drain s' n)"

section \<open>The loop in closed form\<close>

lemma py_rshift_one: "py_rshift a 1 = Inr (drop_bit 1 a)"
  by (simp add: py_rshift_def)

lemma lfsr_step_Inr:
  "lfsr_step taps l =
     Inr \<lparr>state = next_state taps (state l),
          output_list = output_list l @ [next_state taps (state l) AND 1]\<rparr>"
  by (simp add: lfsr_step_def py_rshift_one next_state_def Let_def)

lemma emitted_0: "emitted taps st 0 = []"
  by (simp add: emitted_def)

lemma emitted_Suc_front:
  "emitted taps st (Suc n) = (next_state taps st AND 1) # emitted taps (next_state taps st) n"
proof -
  have "[0..<Suc n] = 0 # map Suc [0..<n]"
    by (simp add: upt_conv_Cons map_Suc_upt del: upt_Suc)
  then show ?thesis
    by (simp add: emitted_def funpow_swap1 comp_def del: upt_Suc)
qed

lemma lfsr_loop_Inr:
  "lfsr_loop n taps l =
     Inr \<lparr>state = (next_state taps ^^ n) (state l),
          output_list = output_list l @ emitted taps (state l) n\<rparr>"
proof (induction n arbitrary: l)
  case 0
  show ?case by (simp add: emitted_0)
next
  case (Suc n)
  show ?case
    by (simp add: lfsr_step_Inr Suc.IH emitted_Suc_front funpow_swap1)
qed

lemma lfsr_32bit_Inr: "lfsr_32bit seed taps cycles = Inr (emitted taps seed (nat cycles))"
  by (simp add: lfsr_32bit_def lfsr_loop_Inr)

section \<open>Bits of the register\<close>

lemma and_one_cases: "(a::int) AND 1 = 0 \<or> a AND 1 = 1"
  by (simp add: and_one_eq mod_2_eq_odd)

lemma feedback_select: "feedback st taps = (if st AND 1 = 1 then taps else 0)"
  using and_one_cases [of st] by (auto simp: feedback_def)

lemma next_state_bounds:
  assumes "0 \<le> st" "st < 2 ^ 32" "0 \<le> taps" "taps < 2 ^ 32"
  shows "0 \<le> next_state taps st \<and> next_state taps st < 2 ^ 32"
proof -
  have d: "0 \<le> drop_bit 1 st" "drop_bit 1 st < 2 ^ 32"
    using assms by (simp_all add: drop_bit_eq_div)
  have f: "0 \<le> feedback st taps" "feedback st taps < 2 ^ 32"
    using assms by (simp_all add: feedback_select)
  have "drop_bit 1 st XOR feedback st taps < 2 ^ 32"
    using d f by (intro XOR_upper)
  moreover have "0 \<le> drop_bit 1 st XOR feedback st taps"
    using d f by simp
  ultimately show ?thesis
    by (simp add: next_state_def)
qed

lemma next_state_word:
  assumes "0 \<le> st" "st < 2 ^ 32" "0 \<le> taps" "taps < 2 ^ 32"
  shows "next_state taps st = uint (ref_step (word_of_int taps) (word_of_int st))"
proof -
  have st: "uint (word_of_int st :: 32 word) = st"
    using assms by (simp add: uint_word_of_int_eq take_bit_int_eq_self)
  have tp: "uint (word_of_int taps :: 32 word) = taps"
    using assms by (simp add: uint_word_of_int_eq take_bit_int_eq_self)
  have lsb: "((word_of_int st :: 32 word) AND 1 = 1) = (st AND 1 = 1)"
    using st by (metis uint_and uint_1 word_uint_eq_iff)
  have sh: "uint (drop_bit 1 (word_of_int st :: 32 word)) = drop_bit 1 st"
    using assms by (simp add: unsigned_drop_bit_eq uint_word_of_int_eq take_bit_int_eq_self)
  show ?thesis
    using sh by (simp add: next_state_def ref_step_def feedback_select uint_xor lsb tp)
qed


lemma length_emitted: "length (emitted taps st n) = n"
  by (simp add: emitted_def)

lemma emitted_bits: "set (emitted taps st n) \<subseteq> {0, 1}"
  using and_one_cases by (auto simp: emitted_def)

lemma emitted_take: "m \<le> n \<Longrightarrow> emitted taps st m = take m (emitted taps st n)"
  by (simp add: emitted_def take_map min_def)

lemma next_state_zero: "next_state taps 0 = 0"
  by (simp add: next_state_def feedback_def)

lemma funpow_next_state_zero: "(next_state taps ^^ n) 0 = 0"
  by (induction n) (simp_all add: next_state_zero)

lemma emitted_zero: "emitted taps 0 n = replicate n 0"
  by (simp add: emitted_def funpow_next_state_zero next_state_zero map_replicate_const)

lemma funpow_next_state_bounds:
  assumes "0 \<le> st" "st < 2 ^ 32" "0 \<le> taps" "taps < 2 ^ 32"
  shows "0 \<le> (next_state taps ^^ n) st \<and> (next_state taps ^^ n) st < 2 ^ 32"
proof (induction n)
  case 0
  show ?case using assms by simp
next
  case (Suc n)
  then show ?case
    using next_state_bounds [OF _ _ assms(3,4), of "(next_state taps ^^ n) st"] by simp
qed

lemma funpow_next_state_word:
  assumes "0 \<le> st" "st < 2 ^ 32" "0 \<le> taps" "taps < 2 ^ 32"
  shows "(next_state taps ^^ n) st = uint (ref_state (word_of_int taps) (word_of_int st) n)"
proof (induction n)
  case 0
  show ?case
    using assms by (simp add: ref_state_def uint_word_of_int_eq take_bit_int_eq_self)
next
  case (Suc n)
  let ?s = "(next_state taps ^^ n) st"
  have b: "0 \<le> ?s" "?s < 2 ^ 32"
    using funpow_next_state_bounds [OF assms, of n] by simp_all
  have "next_state taps ?s = uint (ref_step (word_of_int taps) (word_of_int ?s))"
    using b assms(3,4) by (rule next_state_word)
  also have "word_of_int ?s = ref_state (word_of_int taps) (word_of_int st) n"
    by (simp add: Suc.IH)
  finally show ?case
    by (simp add: ref_state_def)
qed

lemma emitted_word:
  assumes "0 \<le> st" "st < 2 ^ 32" "0 \<le> taps" "taps < 2 ^ 32"
  shows "emitted taps st n = map uint (ref_output (word_of_int taps) (word_of_int st) n)"
proof -
  have "(next_state taps ^^ Suc i) st AND 1
      = uint (ref_state (word_of_int taps) (word_of_int st) (Suc i) AND 1)" for i
    by (simp only: funpow_next_state_word [OF assms] uint_and uint_1)
  then show ?thesis
    by (simp add: emitted_def ref_output_def del: funpow.simps)
qed

lemma next_state_no_taps: "next_state 0 st = st div 2"
  by (simp add: next_state_def feedback_def drop_bit_eq_div)

lemma emitted_no_taps: "emitted 0 st n = drain st n"
proof (induction n arbitrary: st)
  case 0
  show ?case by (simp add: emitted_0)
next
  case (Suc n)
  show ?case
    by (simp add: emitted_Suc_front Suc.IH next_state_no_taps and_one_eq mod_2_eq_odd Let_def)
qed

lemma funpow_next_state_no_taps: "(next_state 0 ^^ n) st = drop_bit n st"
  by (induction n) (simp_all add: next_state_no_taps drop_bit_Suc drop_bit_half)

lemma emitted_no_taps_nth:
  assumes "i < n"
  shows "emitted 0 st n ! i = of_bool (bit st (Suc i))"
proof -
  have "emitted 0 st n ! i = (next_state 0 ^^ Suc i) st AND 1"
    using assms by (simp add: emitted_def del: funpow.simps)
  also have "\<dots> = drop_bit (Suc i) st AND 1"
    by (simp only: funpow_next_state_no_taps)
  also have "\<dots> = of_bool (bit st (Suc i))"
    by (simp add: and_one_eq bit_iff_odd_drop_bit mod_2_eq_odd)
  finally show ?thesis .
qed

section \<open>The claims\<close>

text \<open>
  C1. For a 32-bit seed, a 32-bit tap mask and a non-negative cycle count, the function
  returns the outputs of the reference register machine: the register starts at the seed,
  each step shifts it right logically by one and XORs the tap mask in when the bit shifted
  out of the old register was 1, and the \<open>i\<close>-th output bit is the lowest bit of the
  register after that step, not the bit shifted out.
\<close>

theorem lfsr_32bit_refines_reference:
  assumes "0 \<le> seed" "seed < 2 ^ 32" "0 \<le> taps" "taps < 2 ^ 32" "0 \<le> cycles"
  shows "lfsr_32bit seed taps cycles
       = Inr (map uint (ref_output (word_of_int taps) (word_of_int seed) (nat cycles)))"
  by (simp only: lfsr_32bit_Inr emitted_word [OF assms(1-4)])

theorem lfsr_32bit_refines_reference_witness:
  "lfsr_32bit 1 0x80200003 5 = Inr [1, 0, 1, 1, 0]
   \<and> map uint (ref_output 0x80200003 1 5) = [1, 0, 1, 1, 0]"
proof -
  have r: "map uint (ref_output 0x80200003 1 5) = [1, 0, 1, 1, 0]"
    by code_simp
  have "lfsr_32bit 1 0x80200003 5
      = Inr (map uint (ref_output (word_of_int 0x80200003) (word_of_int 1) (nat 5)))"
    by (rule lfsr_32bit_refines_reference) simp_all
  then show ?thesis
    using r by simp
qed

text \<open>
  C2. For every seed, every tap mask and every non-negative cycle count the function
  returns a list of exactly \<open>cycles\<close> bits, and the empty list when \<open>cycles\<close> is 0.
\<close>

theorem lfsr_32bit_length:
  assumes "0 \<le> cycles"
  shows "(\<exists>out. lfsr_32bit seed taps cycles = Inr out \<and> int (length out) = cycles)
       \<and> lfsr_32bit seed taps 0 = Inr []"
  using assms by (simp add: lfsr_32bit_Inr length_emitted emitted_0)

theorem lfsr_32bit_length_witness:
  "(0::int) \<le> 5
   \<and> (\<exists>out. lfsr_32bit 1 0x80200003 5 = Inr out \<and> int (length out) = 5)
   \<and> lfsr_32bit 1 0x80200003 0 = Inr []"
  using lfsr_32bit_length [of 5 1 "0x80200003"] by simp

text \<open>
  C4. The register 0 is a fixed point of the step. With seed 0, any tap mask and any
  \<open>N > 0\<close> the loop ends without an error, its register is still 0 and the function
  returns \<open>N\<close> zeros.
\<close>

theorem lfsr_32bit_zero_seed:
  assumes "0 < N"
  shows "lfsr_loop (nat N) taps \<lparr>state = 0, output_list = []\<rparr>
           = Inr \<lparr>state = 0, output_list = replicate (nat N) 0\<rparr>
       \<and> lfsr_32bit 0 taps N = Inr (replicate (nat N) 0)"
  by (simp add: lfsr_32bit_Inr lfsr_loop_Inr emitted_zero funpow_next_state_zero)

theorem lfsr_32bit_zero_seed_witness:
  "(0::int) < 3 \<and> lfsr_32bit 0 0x80200003 3 = Inr [0, 0, 0]"
  using lfsr_32bit_zero_seed [of 3 "0x80200003"] by (simp add: eval_nat_numeral)

text \<open>
  C5. The feedback term \<open>-(state & 1) & taps\<close> is the conditional select: the tap mask
  when the lowest bit of the state is 1 and 0 when it is 0, for all integers.
\<close>

theorem feedback_is_select: "feedback st taps = feedback_ref st taps"
  by (simp add: feedback_select feedback_ref_def)

text \<open>
  C6. With tap mask 0 and a non-negative seed, the function returns the lowest bits of the
  seed shifted right again and again: output bit \<open>i\<close> is bit \<open>i + 1\<close> of the seed, and it
  is 0 once the register has drained, that is when the seed is below \<open>2 ^ (i + 1)\<close>.
  At seed \<open>0b1011\<close> and 4 cycles the output is \<open>[1, 0, 1, 0]\<close>.
\<close>

theorem lfsr_32bit_no_taps:
  assumes "0 \<le> seed" "0 \<le> cycles"
  shows "lfsr_32bit seed 0 cycles = Inr (drain seed (nat cycles))
       \<and> (\<forall>i < nat cycles. drain seed (nat cycles) ! i = of_bool (bit seed (Suc i)))
       \<and> (\<forall>i < nat cycles. seed < 2 ^ Suc i \<longrightarrow> drain seed (nat cycles) ! i = 0)"
proof -
  have nth: "drain seed (nat cycles) ! i = of_bool (bit seed (Suc i))" if "i < nat cycles" for i
    using emitted_no_taps_nth [OF that, of seed] by (simp only: emitted_no_taps)
  have "\<not> bit seed (Suc i)" if "seed < 2 ^ Suc i" for i
    using that assms(1) by (simp only: bit_iff_odd_drop_bit drop_bit_eq_div) simp
  then show ?thesis
    using nth by (simp add: lfsr_32bit_Inr emitted_no_taps)
qed

theorem lfsr_32bit_no_taps_witness:
  "(0::int) \<le> 0b1011 \<and> lfsr_32bit 0b1011 0 4 = Inr [1, 0, 1, 0]"
proof -
  have d: "drain 0b1011 (nat 4) = [1, 0, 1, 0]"
    by code_simp
  have "lfsr_32bit 0b1011 0 4 = Inr (drain 0b1011 (nat 4))"
    by (rule conjunct1 [OF lfsr_32bit_no_taps]) simp_all
  then show ?thesis
    by (simp only: d) simp
qed

text \<open>
  C7. Every element of the list the function returns is 0 or 1, for all seeds, tap masks
  and cycle counts.
\<close>

theorem lfsr_32bit_bits:
  "\<exists>out. lfsr_32bit seed taps cycles = Inr out \<and> set out \<subseteq> {0, 1}"
  by (simp add: lfsr_32bit_Inr emitted_bits)

text \<open>
  C8. The function raises no error, for any seed (zero too), any tap mask and any cycle
  count (zero too): the shift of every step succeeds, the loop ends with a frame and the
  function returns a list.
\<close>

theorem lfsr_32bit_no_error:
  "lfsr_step taps l \<noteq> Inl e \<and> lfsr_loop n taps l \<noteq> Inl e
   \<and> (\<exists>out. lfsr_32bit seed taps cycles = Inr out)"
  by (simp add: lfsr_step_Inr lfsr_loop_Inr lfsr_32bit_Inr)

text \<open>
  C9. For a seed and a tap mask that are non-negative and below \<open>2 ^ 32\<close>, the register
  is non-negative and below \<open>2 ^ 32\<close> after every number of steps, although the integers
  are unbounded and the state is never masked.
\<close>

theorem lfsr_state_bounded:
  assumes "0 \<le> seed" "seed < 2 ^ 32" "0 \<le> taps" "taps < 2 ^ 32"
  shows "\<exists>l. lfsr_loop n taps \<lparr>state = seed, output_list = []\<rparr> = Inr l
            \<and> 0 \<le> state l \<and> state l < 2 ^ 32"
  using funpow_next_state_bounds [OF assms, of n] by (simp add: lfsr_loop_Inr)

theorem lfsr_state_bounded_witness:
  "\<exists>l. lfsr_loop 3 0x80200003 \<lparr>state = 1, output_list = []\<rparr> = Inr l
        \<and> 0 \<le> state l \<and> state l < 2 ^ 32"
  by (rule lfsr_state_bounded) simp_all

text \<open>
  C10. For every seed and tap mask and all \<open>m \<le> n\<close>, the list returned for \<open>m\<close> cycles
  is the first \<open>m\<close> elements of the list returned for \<open>n\<close> cycles.
\<close>

theorem lfsr_32bit_prefix:
  assumes "m \<le> n"
  shows "\<exists>out_m out_n. lfsr_32bit seed taps m = Inr out_m
            \<and> lfsr_32bit seed taps n = Inr out_n
            \<and> out_m = take (nat m) out_n"
  using assms by (simp add: lfsr_32bit_Inr emitted_take)

theorem lfsr_32bit_prefix_witness:
  "lfsr_32bit 1 0x80200003 2 = Inr [1, 0]
   \<and> lfsr_32bit 1 0x80200003 5 = Inr [1, 0, 1, 1, 0]
   \<and> [1, 0] = take 2 [1, 0, 1, 1, (0::int)]"
proof -
  have a: "lfsr_32bit 1 0x80200003 5 = Inr [1, 0, 1, 1, 0]"
    by code_simp
  show ?thesis
    using lfsr_32bit_prefix [of 2 5 1 "0x80200003"] by (simp add: a)
qed

end
